theory Spec2Isabelle
  imports Main "HOL-Library.Word" "HOL-Library.List_Lexorder"
begin

section \<open>Python values used by \<^verbatim>\<open>app_open_source.py\<close>\<close>

text \<open>
  A Python \<^verbatim>\<open>str\<close> is a sequence of Unicode code points: slicing, \<^verbatim>\<open>len\<close>,
  comparison and the \<^verbatim>\<open>re\<close> module all work on code points. It is modelled as a list
  of code points (\<open>nat\<close>); \<open>ascii\<close> turns an Isabelle string literal into one. A
  \<^verbatim>\<open>bytes\<close> value is a list of 8-bit words.
\<close>

type_synonym pystr = "nat list"
type_synonym pybytes = "8 word list"

definition ascii :: "string \<Rightarrow> pystr" where
  "ascii s = map of_char s"

text \<open>
  The parts of the Unicode character database that the program reaches but that are tables
  of the Python runtime: which code points above ASCII are alphanumeric (the class
  \<^verbatim>\<open>\w\<close> of \<^verbatim>\<open>re\<close>), and the lower-casing of a string that has a code point
  above ASCII. On ASCII both are written out below.
\<close>

record unicode_db =
  uni_alnum :: "nat \<Rightarrow> bool"
  uni_lower :: "pystr \<Rightarrow> pystr"

text \<open>
  \<^verbatim>\<open>str.isspace\<close>, \<^verbatim>\<open>str.split()\<close>, \<^verbatim>\<open>str.strip()\<close> and the class \<^verbatim>\<open>\s\<close> of a
  \<^verbatim>\<open>str\<close> pattern share one set of white-space code points.
\<close>

definition is_space :: "nat \<Rightarrow> bool" where
  "is_space c \<longleftrightarrow>
     (9 \<le> c \<and> c \<le> 13) \<or> (28 \<le> c \<and> c \<le> 32) \<or> c = 133 \<or> c = 160 \<or> c = 5760 \<or>
     (8192 \<le> c \<and> c \<le> 8202) \<or> c = 8232 \<or> c = 8233 \<or> c = 8239 \<or> c = 8287 \<or> c = 12288"

definition is_upper_ascii :: "nat \<Rightarrow> bool" where
  "is_upper_ascii c \<longleftrightarrow> 65 \<le> c \<and> c \<le> 90"

definition is_lower_ascii :: "nat \<Rightarrow> bool" where
  "is_lower_ascii c \<longleftrightarrow> 97 \<le> c \<and> c \<le> 122"

definition is_digit_ascii :: "nat \<Rightarrow> bool" where
  "is_digit_ascii c \<longleftrightarrow> 48 \<le> c \<and> c \<le> 57"

text \<open>\<^verbatim>\<open>\w\<close> of a \<^verbatim>\<open>str\<close> pattern: alphanumeric or underscore.\<close>

definition is_word :: "unicode_db \<Rightarrow> nat \<Rightarrow> bool" where
  "is_word U c \<longleftrightarrow>
     (if c < 128 then is_upper_ascii c \<or> is_lower_ascii c \<or> is_digit_ascii c \<or> c = 95
      else uni_alnum U c)"

text \<open>
  \<^verbatim>\<open>str.lower()\<close>: on an ASCII string the letters \<^verbatim>\<open>A\<close> to \<^verbatim>\<open>Z\<close> move to
  \<^verbatim>\<open>a\<close> to \<^verbatim>\<open>z\<close>; any other string is lower-cased by the table.
\<close>

definition py_lower :: "unicode_db \<Rightarrow> pystr \<Rightarrow> pystr" where
  "py_lower U s =
     (if list_all (\<lambda>c. c < 128) s then map (\<lambda>c. if is_upper_ascii c then c + 32 else c) s
      else uni_lower U s)"

text \<open>
  \<^verbatim>\<open>str.split()\<close> with no argument: the maximal runs of non-white-space characters, in
  order; \<open>w\<close> is the word being collected.
\<close>

fun split_acc :: "pystr \<Rightarrow> pystr \<Rightarrow> pystr list" where
  "split_acc w [] = (if w = [] then [] else [w])"
| "split_acc w (c # cs) =
     (if is_space c then (if w = [] then split_acc [] cs else w # split_acc [] cs)
      else split_acc (w @ [c]) cs)"

definition py_split :: "pystr \<Rightarrow> pystr list" where
  "py_split s = split_acc [] s"

text \<open>\<^verbatim>\<open>sep.join(xs)\<close>.\<close>

fun py_join :: "pystr \<Rightarrow> pystr list \<Rightarrow> pystr" where
  "py_join sep [] = []"
| "py_join sep [x] = x"
| "py_join sep (x # y # ys) = x @ sep @ py_join sep (y # ys)"

text \<open>\<^verbatim>\<open>str.strip()\<close> with no argument.\<close>

definition py_strip :: "pystr \<Rightarrow> pystr" where
  "py_strip s = rev (dropWhile is_space (rev (dropWhile is_space s)))"


section \<open>Reading an uploaded file\<close>

record uploaded_file =
  name :: pystr
  content :: pybytes

datatype py_exception =
  EmptyFileError | PdfReadError | BadZipFile | ParserRejectedMarkup | KeyError | QaError

subsection \<open>\<^verbatim>\<open>Path(name).suffix\<close>\<close>

text \<open>
  \<^verbatim>\<open>pathlib\<close>, POSIX flavour: the name of a path is its last component that is neither
  empty nor \<^verbatim>\<open>.\<close>; the suffix of a name starts at its last dot, when that dot is neither
  the first nor the last character of the name.
\<close>

fun split_on :: "nat \<Rightarrow> pystr \<Rightarrow> pystr \<Rightarrow> pystr list" where
  "split_on sep w [] = [w]"
| "split_on sep w (c # cs) = (if c = sep then w # split_on sep [] cs else split_on sep (w @ [c]) cs)"

definition path_name :: "pystr \<Rightarrow> pystr" where
  "path_name p =
     (case rev (filter (\<lambda>x. x \<noteq> [] \<and> x \<noteq> ascii ''.'') (split_on (of_char CHR ''/'') [] p)) of
        [] \<Rightarrow> []
      | x # _ \<Rightarrow> x)"

definition py_rfind :: "nat \<Rightarrow> pystr \<Rightarrow> nat option" where
  "py_rfind c s = (case filter (\<lambda>i. s ! i = c) (rev [0..<length s]) of [] \<Rightarrow> None | i # _ \<Rightarrow> Some i)"

definition path_suffix :: "pystr \<Rightarrow> pystr" where
  "path_suffix p =
     (let name = path_name p in
      case py_rfind (of_char CHR ''.'') name of
        None \<Rightarrow> []
      | Some i \<Rightarrow> if 0 < i \<and> i + 1 < length name then drop i name else [])"

subsection \<open>\<^verbatim>\<open>bytes.decode("utf-8", errors="ignore")\<close>\<close>

text \<open>
  The decoder of CPython: a well-formed sequence gives its code point; an invalid start byte
  is skipped; a start byte followed by an invalid continuation is skipped together with the
  continuation bytes accepted so far, and decoding resumes at the offending byte; a
  sequence cut off by the end of the input is dropped.
\<close>

definition is_cont :: "8 word \<Rightarrow> bool" where
  "is_cont b \<longleftrightarrow> 0x80 \<le> b \<and> b \<le> 0xBF"

definition second_ok :: "8 word \<Rightarrow> 8 word \<Rightarrow> bool" where
  "second_ok b c \<longleftrightarrow>
     is_cont c \<and> \<not> (b = 0xE0 \<and> c < 0xA0) \<and> \<not> (b = 0xED \<and> 0xA0 \<le> c) \<and>
     \<not> (b = 0xF0 \<and> c < 0x90) \<and> \<not> (b = 0xF4 \<and> 0x90 \<le> c)"

fun utf8_decode_ignore :: "pybytes \<Rightarrow> pystr" where
  "utf8_decode_ignore [] = []"
| "utf8_decode_ignore (b # bs) =
     (if b < 0x80 then unat b # utf8_decode_ignore bs
      else if b < 0xC2 \<or> 0xF5 \<le> b then utf8_decode_ignore bs
      else if b < 0xE0 then
        (case bs of
           [] \<Rightarrow> []
         | c1 # r1 \<Rightarrow>
             if is_cont c1 then ((unat b - 0xC0) * 64 + (unat c1 - 0x80)) # utf8_decode_ignore r1
             else utf8_decode_ignore bs)
      else if b < 0xF0 then
        (case bs of
           [] \<Rightarrow> []
         | c1 # r1 \<Rightarrow>
             if \<not> second_ok b c1 then utf8_decode_ignore bs
             else
               (case r1 of
                  [] \<Rightarrow> []
                | c2 # r2 \<Rightarrow>
                    if is_cont c2 then
                      ((unat b - 0xE0) * 4096 + (unat c1 - 0x80) * 64 + (unat c2 - 0x80))
                        # utf8_decode_ignore r2
                    else utf8_decode_ignore r1))
      else
        (case bs of
           [] \<Rightarrow> []
         | c1 # r1 \<Rightarrow>
             if \<not> second_ok b c1 then utf8_decode_ignore bs
             else
               (case r1 of
                  [] \<Rightarrow> []
                | c2 # r2 \<Rightarrow>
                    if \<not> is_cont c2 then utf8_decode_ignore r1
                    else
                      (case r2 of
                         [] \<Rightarrow> []
                       | c3 # r3 \<Rightarrow>
                           if is_cont c3 then
                             ((unat b - 0xF0) * 262144 + (unat c1 - 0x80) * 4096
                                + (unat c2 - 0x80) * 64 + (unat c3 - 0x80))
                               # utf8_decode_ignore r3
                           else utf8_decode_ignore r2))))"

subsection \<open>The format parsers\<close>

text \<open>
  \<^verbatim>\<open>pypdf.PdfReader\<close>, \<^verbatim>\<open>docx.Document\<close> and \<^verbatim>\<open>BeautifulSoup\<close> are libraries outside
  the program; they are parameters of the model. Each either raises or returns a document:
  the pages of a PDF, each of which raises or yields a text or \<^verbatim>\<open>None\<close> on
  \<^verbatim>\<open>extract_text()\<close>; the paragraph texts of a Word document; the tree of an HTML
  document.
\<close>

datatype html_node = NavigableString pystr | Comment pystr | Tag pystr "html_node list"

record parsers =
  pdf_reader :: "pybytes \<Rightarrow> py_exception + (py_exception + pystr option) list"
  docx_document :: "pybytes \<Rightarrow> py_exception + pystr list"
  beautiful_soup :: "pybytes \<Rightarrow> py_exception + html_node"

text \<open>\<^verbatim>\<open>[page.extract_text() or "" for page in reader.pages]\<close>\<close>

fun pages_text :: "(py_exception + pystr option) list \<Rightarrow> py_exception + pystr list" where
  "pages_text [] = Inr []"
| "pages_text (Inl e # ps) = Inl e"
| "pages_text (Inr t # ps) =
     (case pages_text ps of
        Inl e \<Rightarrow> Inl e
      | Inr ts \<Rightarrow> Inr ((case t of None \<Rightarrow> [] | Some x \<Rightarrow> x) # ts))"

text \<open>\<^verbatim>\<open>for tag in soup(["script", "style"]): tag.extract()\<close>\<close>

fun is_named :: "pystr list \<Rightarrow> html_node \<Rightarrow> bool" where
  "is_named names (Tag n cs) = (n \<in> set names)"
| "is_named names _ = False"

fun extract_tags :: "pystr list \<Rightarrow> html_node \<Rightarrow> html_node" where
  "extract_tags names (Tag n cs) =
     Tag n (filter (\<lambda>c. \<not> is_named names c) (map (extract_tags names) cs))"
| "extract_tags names x = x"

text \<open>\<^verbatim>\<open>soup.get_text(separator="\n")\<close>\<close>

fun all_strings :: "html_node \<Rightarrow> pystr list" where
  "all_strings (NavigableString s) = [s]"
| "all_strings (Comment s) = []"
| "all_strings (Tag n cs) = concat (map all_strings cs)"

definition get_text :: "pystr \<Rightarrow> html_node \<Rightarrow> pystr" where
  "get_text separator soup = py_join separator (all_strings soup)"

subsection \<open>\<^verbatim>\<open>extract_text_from_file\<close>\<close>

definition extract_text_from_file ::
  "unicode_db \<Rightarrow> parsers \<Rightarrow> uploaded_file \<Rightarrow> py_exception + pystr" where
  "extract_text_from_file U P uploaded =
     (let file_bytes = content uploaded;
          suffix = py_lower U (path_suffix (name uploaded))
      in
      if suffix = ascii ''.txt'' then Inr (utf8_decode_ignore file_bytes)
      else if suffix = ascii ''.pdf'' then
        (case pdf_reader P file_bytes of
           Inl e \<Rightarrow> Inl e
         | Inr reader_pages \<Rightarrow>
             (case pages_text reader_pages of
                Inl e \<Rightarrow> Inl e
              | Inr pages \<Rightarrow> Inr (py_join [10] pages)))
      else if suffix = ascii ''.docx'' then
        (case docx_document P file_bytes of
           Inl e \<Rightarrow> Inl e
         | Inr paragraphs \<Rightarrow> Inr (py_join [10] paragraphs))
      else if suffix \<in> set [ascii ''.html'', ascii ''.htm''] then
        (case beautiful_soup P file_bytes of
           Inl e \<Rightarrow> Inl e
         | Inr soup \<Rightarrow> Inr (get_text [10] (extract_tags [ascii ''script'', ascii ''style''] soup)))
      else Inr [])"


section \<open>The regular expression of \<^verbatim>\<open>extract_abbreviations\<close>\<close>

text \<open>
  The pattern of the source is a sequence of items: a word boundary, group parentheses, and
  character classes under a greedy repetition \<open>{lo,hi}\<close> (a single character is the
  repetition \<open>{1,1}\<close>). The matcher below is the backtracking matcher of \<^verbatim>\<open>re\<close> on such
  sequences: a repetition first takes as many characters as it can, and gives them back one
  at a time while the rest of the pattern fails.
\<close>

datatype cset = Range nat nat | Space | Lit nat

fun in_atom :: "nat \<Rightarrow> cset \<Rightarrow> bool" where
  "in_atom c (Range lo hi) = (lo \<le> c \<and> c \<le> hi)"
| "in_atom c Space = is_space c"
| "in_atom c (Lit x) = (c = x)"

definition in_class :: "cset list \<Rightarrow> nat \<Rightarrow> bool" where
  "in_class cls c = list_ex (in_atom c) cls"

datatype item = Word_boundary | Group_open | Group_close | Rep "cset list" nat "nat option"

text \<open>\<^verbatim>\<open>\b\<close>: exactly one of the characters before and after the position is a word
  character; outside the text there is none.\<close>

definition at_boundary :: "unicode_db \<Rightarrow> pystr \<Rightarrow> nat \<Rightarrow> bool" where
  "at_boundary U s i =
     (let that = (0 < i \<and> i \<le> length s \<and> is_word U (s ! (i - 1)));
          this = (i < length s \<and> is_word U (s ! i))
      in s \<noteq> [] \<and> this \<noteq> that)"

fun first_some :: "'a option list \<Rightarrow> 'a option" where
  "first_some [] = None"
| "first_some (Some x # xs) = Some x"
| "first_some (None # xs) = first_some xs"

text \<open>The length of the longest run of characters satisfying \<open>P\<close> that starts at position \<open>i\<close>.\<close>

definition span_len :: "(nat \<Rightarrow> bool) \<Rightarrow> pystr \<Rightarrow> nat \<Rightarrow> nat" where
  "span_len P s i = length (takeWhile P (drop i s))"

text \<open>
  \<open>run U items s i marks\<close> matches \<open>items\<close> against \<open>s\<close> from position \<open>i\<close>; \<open>marks\<close>
  collects the positions of the group parentheses passed so far. The result is the end of
  the match and the marks. A repetition tries the longest count first, then each shorter
  one down to \<open>lo\<close>, and keeps the first count under which the rest of the items match.
\<close>

fun run :: "unicode_db \<Rightarrow> item list \<Rightarrow> pystr \<Rightarrow> nat \<Rightarrow> nat list \<Rightarrow> (nat \<times> nat list) option" where
  "run U [] s i marks = Some (i, marks)"
| "run U (Word_boundary # items) s i marks =
     (if at_boundary U s i then run U items s i marks else None)"
| "run U (Group_open # items) s i marks = run U items s i (marks @ [i])"
| "run U (Group_close # items) s i marks = run U items s i (marks @ [i])"
| "run U (Rep cls lo hi # items) s i marks =
     (let avail = span_len (in_class cls) s i;
          most = (case hi of None \<Rightarrow> avail | Some h \<Rightarrow> min h avail)
      in first_some (map (\<lambda>k. run U items s (i + k) marks) (rev [lo..<Suc most])))"

text \<open>\<^verbatim>\<open>\b([A-Za-z][A-Za-z\s\-]{2,})\s*\(([A-Z]{2,10})\)\<close>\<close>

definition pattern :: "item list" where
  "pattern =
     [Word_boundary,
      Group_open,
      Rep [Range (of_char CHR ''A'') (of_char CHR ''Z''), Range (of_char CHR ''a'') (of_char CHR ''z'')]
        1 (Some 1),
      Rep [Range (of_char CHR ''A'') (of_char CHR ''Z''), Range (of_char CHR ''a'') (of_char CHR ''z''),
           Space, Lit (of_char CHR ''-'')]
        2 None,
      Group_close,
      Rep [Space] 0 None,
      Rep [Lit (of_char CHR ''('')] 1 (Some 1),
      Group_open,
      Rep [Range (of_char CHR ''A'') (of_char CHR ''Z'')] 2 (Some 10),
      Group_close,
      Rep [Lit (of_char CHR '')'')] 1 (Some 1)]"

record re_match =
  m_start :: nat
  m_end :: nat
  m_full :: pystr
  m_abbr :: pystr

definition slice :: "pystr \<Rightarrow> nat \<Rightarrow> nat \<Rightarrow> pystr" where
  "slice s a b = take (b - a) (drop a s)"

text \<open>A match of the pattern at position \<open>i\<close>, with the text of its two groups.\<close>

definition match_at :: "unicode_db \<Rightarrow> pystr \<Rightarrow> nat \<Rightarrow> re_match option" where
  "match_at U s i =
     (case run U pattern s i [] of
        Some (e, [a1, b1, a2, b2]) \<Rightarrow>
          Some \<lparr>m_start = i, m_end = e, m_full = slice s a1 b1, m_abbr = slice s a2 b2\<rparr>
      | _ \<Rightarrow> None)"

text \<open>
  The scan of \<^verbatim>\<open>re.findall\<close>: the leftmost match from \<open>pos\<close>, then on from its end. The
  pattern never matches the empty string, so a match ends after \<open>pos\<close>.
\<close>

function finditer_from :: "unicode_db \<Rightarrow> pystr \<Rightarrow> nat \<Rightarrow> re_match list" where
  "finditer_from U s pos =
     (if length s < pos then []
      else
        (case match_at U s pos of
           None \<Rightarrow> finditer_from U s (Suc pos)
         | Some m \<Rightarrow> m # finditer_from U s (max (m_end m) (Suc pos))))"
  by pat_completeness auto
termination
  by (relation "measure (\<lambda>(U, s, pos). Suc (length s) - pos)") auto

definition findall :: "unicode_db \<Rightarrow> pystr \<Rightarrow> (pystr \<times> pystr) list" where
  "findall U text = map (\<lambda>m. (m_full m, m_abbr m)) (finditer_from U text 0)"

section \<open>\<^verbatim>\<open>extract_abbreviations\<close>\<close>

text \<open>
  A \<^verbatim>\<open>dict\<close> is the list of its items in insertion order. The loop of the source adds an
  item only under a key that is not in the dictionary yet.
\<close>

type_synonym pydict = "(pystr \<times> pystr) list"

fun abbr_loop :: "pydict \<Rightarrow> (pystr \<times> pystr) list \<Rightarrow> pydict" where
  "abbr_loop abbr_dict [] = abbr_dict"
| "abbr_loop abbr_dict ((full_term, abbr) # matches) =
     (let full_term_clean = py_join (ascii '' '') (py_split full_term);
          abbr = py_strip abbr
      in
      if abbr \<notin> set (map fst abbr_dict)
      then abbr_loop (abbr_dict @ [(abbr, full_term_clean)]) matches
      else abbr_loop abbr_dict matches)"

definition extract_abbreviations :: "unicode_db \<Rightarrow> pystr \<Rightarrow> pydict" where
  "extract_abbreviations U text = abbr_loop [] (findall U text)"

section \<open>The two button handlers\<close>

text \<open>
  What a handler does is the list of its calls to Streamlit and to the question-answering
  model, in order, and the exception that ended it, if one did. The model \<^verbatim>\<open>qa\<close> is a
  parameter: it raises or returns the answer of its result.
\<close>

datatype st_event =
  St_warning pystr | St_success pystr | St_error pystr | St_write pystr | St_markdown pystr
| Qa_call pystr pystr

type_synonym qa_model = "pystr \<Rightarrow> pystr \<Rightarrow> py_exception + pystr"

definition get_answer :: "qa_model \<Rightarrow> pystr \<Rightarrow> pystr \<Rightarrow> st_event list \<times> (py_exception + pystr)" where
  "get_answer qa question context =
     (let context = take 4000 context
      in ([Qa_call question context], qa question context))"

subsection \<open>Get Answer\<close>

definition header :: "pystr \<Rightarrow> pystr" where
  "header file_name = [10, 10] @ ascii ''===== '' @ file_name @ ascii '' ====='' @ [10, 10]"

fun concat_texts :: "unicode_db \<Rightarrow> parsers \<Rightarrow> pystr \<Rightarrow> uploaded_file list \<Rightarrow> py_exception + pystr" where
  "concat_texts U P all_text [] = Inr all_text"
| "concat_texts U P all_text (file # files) =
     (case extract_text_from_file U P file of
        Inl e \<Rightarrow> Inl e
      | Inr text \<Rightarrow> concat_texts U P (all_text @ header (name file) @ text) files)"

definition on_get_answer ::
  "unicode_db \<Rightarrow> parsers \<Rightarrow> qa_model \<Rightarrow> pystr \<Rightarrow> uploaded_file list
     \<Rightarrow> st_event list \<times> py_exception option" where
  "on_get_answer U P qa user_question uploaded_files =
     (if user_question = [] then ([St_warning (ascii ''Please type a question first.'')], None)
      else if uploaded_files = [] then
        ([St_warning (ascii ''Please upload at least one document.'')], None)
      else
        (let started = [St_success (ascii ''Great! Reading your documents now...'')] in
         case concat_texts U P [] uploaded_files of
           Inl e \<Rightarrow> (started, Some e)
         | Inr all_text \<Rightarrow>
             if py_strip all_text = [] then
               (started @ [St_error (ascii ''I could not read any text from the uploaded files.'')],
                None)
             else
               (let shown = started @
                      [St_write (ascii ''### Preview of the document text:''),
                       St_write (take 500 all_text @ ascii ''...'' @ [10, 10]
                                 @ ascii ''(Only showing the beginning.)''),
                       St_write (ascii ''### Thinking about your question...'')];
                    (calls, result) = get_answer qa user_question all_text
                in
                case result of
                  Inl e \<Rightarrow> (shown @ calls, Some e)
                | Inr answer \<Rightarrow>
                    (shown @ calls @ [St_write (ascii ''## Answer:''), St_write answer], None))))"

subsection \<open>Generate Abbreviation Index\<close>









section \<open>The specification's words\<close>

text \<open>
  The pattern as the specification describes it, at position \<open>i\<close> of the text: a run
  \<open>full\<close> of one or more words (it starts where a word starts, with a letter) made of
  letters, white space and hyphens, at least 3 characters long, then optional white space
  \<open>ws\<close>, an opening parenthesis, 2 to 10 upper-case ASCII letters \<open>abbr\<close>, and a closing
  parenthesis. The letters are the ASCII letters, and the spaces of a full term are
  white-space characters: the specification normalizes the white-space runs of a captured
  full term.
\<close>

definition term_char :: "nat \<Rightarrow> bool" where
  "term_char c \<longleftrightarrow> is_upper_ascii c \<or> is_lower_ascii c \<or> is_space c \<or> c = of_char CHR ''-''"

definition spec_pattern :: "unicode_db \<Rightarrow> pystr \<Rightarrow> nat \<Rightarrow> pystr \<Rightarrow> pystr \<Rightarrow> pystr \<Rightarrow> bool" where
  "spec_pattern U s i full ws abbr \<longleftrightarrow>
     at_boundary U s i \<and>
     3 \<le> length full \<and> (is_upper_ascii (hd full) \<or> is_lower_ascii (hd full)) \<and>
     list_all term_char full \<and>
     list_all is_space ws \<and>
     2 \<le> length abbr \<and> length abbr \<le> 10 \<and> list_all is_upper_ascii abbr \<and>
     take (length full + length ws + length abbr + 2) (drop i s)
       = full @ ws @ ascii ''('' @ abbr @ ascii '')''"

text \<open>
  A normalized full term: no two adjacent white-space characters, no white-space character
  other than the space, and no white space at either end.
\<close>

fun no_ws_run :: "pystr \<Rightarrow> bool" where
  "no_ws_run (a # b # cs) = (\<not> (is_space a \<and> is_space b) \<and> no_ws_run (b # cs))"
| "no_ws_run cs = True"

definition collapsed :: "pystr \<Rightarrow> bool" where
  "collapsed v \<longleftrightarrow>
     no_ws_run v \<and> list_all (\<lambda>c. is_space c \<longrightarrow> c = 32) v \<and>
     (v \<noteq> [] \<longrightarrow> \<not> is_space (hd v) \<and> \<not> is_space (last v))"

section \<open>Stand-ins for the examples\<close>


definition ascii_only :: unicode_db where
  "ascii_only = \<lparr>uni_alnum = (\<lambda>c. False), uni_lower = (\<lambda>s. s)\<rparr>"

definition sample_parsers :: parsers where
  "sample_parsers =
     \<lparr>pdf_reader = (\<lambda>b. if b = [] then Inl EmptyFileError
                         else Inr (map (\<lambda>x. if x = 0 then Inl PdfReadError else Inr (Some [unat x])) b)),
      docx_document = (\<lambda>b. if take 2 b = [0x50, 0x4B] then Inr [utf8_decode_ignore (drop 2 b)]
                            else Inl BadZipFile),
      beautiful_soup = (\<lambda>b. Inr (Tag (ascii ''[document]'')
                                  (if b = [] then [] else [NavigableString (utf8_decode_ignore b)])))\<rparr>"


definition sample_qa :: qa_model where
  "sample_qa question context = Inr (take 20 context)"


section \<open>The matcher in closed form\<close>

subsection \<open>Runs of characters\<close>

lemma span_len_nth: "k < span_len P s i \<Longrightarrow> i + k < length s \<and> P (s ! (i + k))"
proof -
  assume k: "k < span_len P s i"
  have le: "length (takeWhile P (drop i s)) \<le> length (drop i s)" by (rule length_takeWhile_le)
  from k le have 1: "i + k < length s" by (simp add: span_len_def)
  from k have "P (takeWhile P (drop i s) ! k)"
    unfolding span_len_def by (metis nth_mem set_takeWhileD)
  with k have "P (drop i s ! k)" by (simp add: span_len_def takeWhile_nth)
  with 1 show ?thesis by simp
qed

lemma span_len_stop: "i + span_len P s i < length s \<Longrightarrow> \<not> P (s ! (i + span_len P s i))"
proof -
  assume a: "i + span_len P s i < length s"
  then have "length (takeWhile P (drop i s)) < length (drop i s)" by (simp add: span_len_def)
  then have "\<not> P (drop i s ! length (takeWhile P (drop i s)))" by (rule nth_length_takeWhile)
  with a show ?thesis by (simp add: span_len_def)
qed

lemma span_len_ge: "(\<And>k. k < n \<Longrightarrow> i + k < length s \<and> P (s ! (i + k))) \<Longrightarrow> n \<le> span_len P s i"
proof (rule ccontr)
  assume h: "\<And>k. k < n \<Longrightarrow> i + k < length s \<and> P (s ! (i + k))" and "\<not> n \<le> span_len P s i"
  then have lt: "span_len P s i < n" by simp
  from h [OF lt] have "i + span_len P s i < length s" "P (s ! (i + span_len P s i))" by simp_all
  with span_len_stop show False by blast
qed

lemma span_len_pos: "0 < span_len P s i \<longleftrightarrow> i < length s \<and> P (s ! i)"
proof
  assume "0 < span_len P s i"
  from span_len_nth [OF this] show "i < length s \<and> P (s ! i)" by simp
next
  assume a: "i < length s \<and> P (s ! i)"
  have "1 \<le> span_len P s i" by (rule span_len_ge) (use a in simp)
  then show "0 < span_len P s i" by simp
qed

lemma span_len_zero: "i < length s \<Longrightarrow> \<not> P (s ! i) \<Longrightarrow> span_len P s i = 0"
  using span_len_pos [of P s i] by simp

lemma span_len_end: "length s \<le> i \<Longrightarrow> span_len P s i = 0"
  by (simp add: span_len_def)

lemma first_some_all_None: "(\<And>x. x \<in> set xs \<Longrightarrow> x = None) \<Longrightarrow> first_some xs = None"
  by (induction xs rule: first_some.induct) auto

lemma first_some_greedy:
  assumes "\<And>k. lo \<le> k \<Longrightarrow> k < n \<Longrightarrow> f k \<noteq> None \<Longrightarrow> f n \<noteq> None"
  shows "first_some (map f (rev [lo..<Suc n])) = (if lo \<le> n then f n else None)"
proof (cases "lo \<le> n")
  case False
  then show ?thesis by simp
next
  case True
  then have l: "rev [lo..<Suc n] = n # rev [lo..<n]" by simp
  show ?thesis
  proof (cases "f n")
    case (Some x)
    with l True show ?thesis by simp
  next
    case None
    have "first_some (map f (rev [lo..<n])) = None"
    proof (rule first_some_all_None)
      fix x assume "x \<in> set (map f (rev [lo..<n]))"
      then obtain k where "lo \<le> k" "k < n" "x = f k" by auto
      with assms [of k] None show "x = None" by (cases "f k") auto
    qed
    with l None True show ?thesis by simp
  qed
qed

lemma first_some_single: "first_some [x] = x"
  by (cases x) simp_all

declare run.simps(5) [simp del]

lemma run_rep_bounded:
  "run U (Rep cls lo (Some h) # items) s i ms =
     first_some (map (\<lambda>k. run U items s (i + k) ms) (rev [lo..<Suc (min h (span_len (in_class cls) s i))]))"
  by (simp only: run.simps(5) Let_def option.case)

lemma run_rep_unbounded:
  "run U (Rep cls lo None # items) s i ms =
     first_some (map (\<lambda>k. run U items s (i + k) ms) (rev [lo..<Suc (span_len (in_class cls) s i)]))"
  by (simp only: run.simps(5) Let_def option.case)

lemma run_char:
  "run U (Rep cls (Suc 0) (Some (Suc 0)) # items) s i ms =
     (if i < length s \<and> in_class cls (s ! i) then run U items s (Suc i) ms else None)"
proof (cases "i < length s \<and> in_class cls (s ! i)")
  case True
  then have "0 < span_len (in_class cls) s i" by (simp add: span_len_pos)
  then have "min (Suc 0) (span_len (in_class cls) s i) = Suc 0" by simp
  with True show ?thesis by (simp add: run_rep_bounded first_some_single)
next
  case False
  with span_len_pos [of "in_class cls" s i] have "\<not> 0 < span_len (in_class cls) s i" by blast
  then have "span_len (in_class cls) s i = 0" by simp
  with False show ?thesis by (auto simp add: run_rep_bounded)
qed

lemma in_class_lit: "in_class [Lit x] c = (c = x)"
  by (simp add: in_class_def)

text \<open>The tail of the pattern from the acronym on.\<close>

lemma run_acronym:
  "run U [Rep cls 2 (Some 10), Group_close, Rep [Lit x] (Suc 0) (Some (Suc 0))] s j ms =
     (if 2 \<le> span_len (in_class cls) s j \<and> span_len (in_class cls) s j \<le> 10
         \<and> j + span_len (in_class cls) s j < length s \<and> s ! (j + span_len (in_class cls) s j) = x
      then Some (Suc (j + span_len (in_class cls) s j), ms @ [j + span_len (in_class cls) s j])
      else None)"
  if nx: "\<not> in_class cls x"
proof -
  define u where "u = span_len (in_class cls) s j"
  define f where "f k = run U [Group_close, Rep [Lit x] (Suc 0) (Some (Suc 0))] s (j + k) ms" for k
  have f: "f k = (if j + k < length s \<and> s ! (j + k) = x then Some (Suc (j + k), ms @ [j + k]) else None)" for k
    unfolding f_def by (simp add: run_char in_class_lit)
  have below: "f k = None" if "k < u" for k
  proof -
    from that have "in_class cls (s ! (j + k))" using span_len_nth [of k "in_class cls" s j] by (simp add: u_def)
    with nx have "s ! (j + k) \<noteq> x" by auto
    then show ?thesis by (simp add: f)
  qed
  have "run U [Rep cls 2 (Some 10), Group_close, Rep [Lit x] (Suc 0) (Some (Suc 0))] s j ms
          = first_some (map f (rev [2..<Suc (min 10 u)]))"
    unfolding u_def f_def by (rule run_rep_bounded)
  also have "\<dots> = (if 2 \<le> min 10 u then f (min 10 u) else None)"
  proof (rule first_some_greedy)
    fix k assume "k < min 10 u" "f k \<noteq> None"
    with below [of k] show "f (min 10 u) \<noteq> None" by simp
  qed
  also have "\<dots> = (if 2 \<le> u \<and> u \<le> 10 \<and> j + u < length s \<and> s ! (j + u) = x
                     then Some (Suc (j + u), ms @ [j + u]) else None)"
  proof (cases "u \<le> 10")
    case True
    then have "min 10 u = u" by simp
    with True show ?thesis by (simp add: f)
  next
    case False
    then have "min 10 u = 10" "10 < u" by simp_all
    with below [of 10] show ?thesis by simp
  qed
  finally show ?thesis by (simp add: u_def)
qed


text \<open>The opening parenthesis and what follows it.\<close>

lemma run_paren:
  assumes "\<not> in_class cls x"
  shows "run U [Rep [Lit opn] (Suc 0) (Some (Suc 0)), Group_open, Rep cls 2 (Some 10), Group_close,
                Rep [Lit x] (Suc 0) (Some (Suc 0))] s p ms =
     (if p < length s \<and> s ! p = opn
         \<and> 2 \<le> span_len (in_class cls) s (Suc p) \<and> span_len (in_class cls) s (Suc p) \<le> 10
         \<and> Suc p + span_len (in_class cls) s (Suc p) < length s
         \<and> s ! (Suc p + span_len (in_class cls) s (Suc p)) = x
      then Some (Suc (Suc p + span_len (in_class cls) s (Suc p)),
                 ms @ [Suc p, Suc p + span_len (in_class cls) s (Suc p)])
      else None)"
  by (simp add: run_char in_class_lit run_acronym [OF assms])

text \<open>The optional white space before the parenthesis: only the whole run of white space can be
  followed by the parenthesis.\<close>

lemma run_ws:
  assumes nx: "\<not> in_class cls x" and nw: "\<not> in_class wcls opn"
  shows "run U (Rep wcls 0 None # [Rep [Lit opn] (Suc 0) (Some (Suc 0)), Group_open, Rep cls 2 (Some 10),
                  Group_close, Rep [Lit x] (Suc 0) (Some (Suc 0))]) s p ms =
         run U [Rep [Lit opn] (Suc 0) (Some (Suc 0)), Group_open, Rep cls 2 (Some 10),
                  Group_close, Rep [Lit x] (Suc 0) (Some (Suc 0))] s (p + span_len (in_class wcls) s p) ms"
proof -
  define T where "T = [Rep [Lit opn] (Suc 0) (Some (Suc 0)), Group_open, Rep cls 2 (Some 10),
                  Group_close, Rep [Lit x] (Suc 0) (Some (Suc 0))]"
  define w where "w = span_len (in_class wcls) s p"
  define f where "f k = run U T s (p + k) ms" for k
  have below: "f k = None" if "k < w" for k
  proof -
    from that have "in_class wcls (s ! (p + k))"
      using span_len_nth [of k "in_class wcls" s p] by (simp add: w_def)
    with nw have "s ! (p + k) \<noteq> opn" by auto
    then show ?thesis unfolding f_def T_def by (simp add: run_paren [OF nx])
  qed
  have "run U (Rep wcls 0 None # T) s p ms = first_some (map f (rev [0..<Suc w]))"
    unfolding f_def w_def by (rule run_rep_unbounded)
  also have "\<dots> = (if 0 \<le> w then f w else None)"
  proof (rule first_some_greedy)
    fix k assume "k < w" "f k \<noteq> None"
    with below [of k] show "f w \<noteq> None" by simp
  qed
  finally show ?thesis by (simp add: f_def w_def T_def)
qed

text \<open>The repetition of the full term: when a shorter run can be completed to a match, so can
  the longest one, which is tried first.\<close>

lemma run_term:
  assumes nx: "\<not> in_class cls x" and nw: "\<not> in_class wcls opn" and nt: "\<not> in_class tcls opn"
    and sub: "\<And>c. in_class wcls c \<Longrightarrow> in_class tcls c"
  shows "run U (Rep tcls 2 None # Group_close # Rep wcls 0 None #
                 [Rep [Lit opn] (Suc 0) (Some (Suc 0)), Group_open, Rep cls 2 (Some 10),
                  Group_close, Rep [Lit x] (Suc 0) (Some (Suc 0))]) s q ms =
         (if 2 \<le> span_len (in_class tcls) s q
          then run U [Rep [Lit opn] (Suc 0) (Some (Suc 0)), Group_open, Rep cls 2 (Some 10),
                  Group_close, Rep [Lit x] (Suc 0) (Some (Suc 0))] s (q + span_len (in_class tcls) s q)
                  (ms @ [q + span_len (in_class tcls) s q])
          else None)"
proof -
  define T where "T = [Rep [Lit opn] (Suc 0) (Some (Suc 0)), Group_open, Rep cls 2 (Some 10),
                  Group_close, Rep [Lit x] (Suc 0) (Some (Suc 0))]"
  define m where "m = span_len (in_class tcls) s q"
  define f where "f k = run U (Group_close # Rep wcls 0 None # T) s (q + k) ms" for k
  have f: "f k = run U T s (q + k + span_len (in_class wcls) s (q + k)) (ms @ [q + k])" for k
    unfolding f_def T_def by (simp add: run_ws [OF nx nw])
  have ok: "run U T s p ms' \<noteq> None \<longleftrightarrow>
              p < length s \<and> s ! p = opn
              \<and> 2 \<le> span_len (in_class cls) s (Suc p) \<and> span_len (in_class cls) s (Suc p) \<le> 10
              \<and> Suc p + span_len (in_class cls) s (Suc p) < length s
              \<and> s ! (Suc p + span_len (in_class cls) s (Suc p)) = x" for p ms'
    unfolding T_def by (simp add: run_paren [OF nx])
  have wm: "span_len (in_class wcls) s (q + m) = 0"
  proof (cases "q + m < length s")
    case True
    then have "\<not> in_class tcls (s ! (q + m))" unfolding m_def by (rule span_len_stop)
    with sub have "\<not> in_class wcls (s ! (q + m))" by blast
    with True show ?thesis by (simp add: span_len_zero)
  next
    case False
    then show ?thesis by (simp add: span_len_end)
  qed
  have fm: "f m = run U T s (q + m) (ms @ [q + m])"
    by (simp add: f wm)
  have up: "f m \<noteq> None" if "k < m" and "f k \<noteq> None" for k
  proof -
    define wk where "wk = span_len (in_class wcls) s (q + k)"
    define p where "p = q + k + wk"
    from that(2) have okp: "run U T s p (ms @ [q + k]) \<noteq> None" by (simp add: f p_def wk_def)
    with ok [of p "ms @ [q + k]"] have p: "p < length s" "s ! p = opn" by blast+
    have "\<not> p < q + m"
    proof
      assume "p < q + m"
      then have "p - q < m" "q + (p - q) = p" by (simp_all add: p_def)
      with span_len_nth [of "p - q" "in_class tcls" s q] have "in_class tcls (s ! p)"
        by (simp add: m_def)
      with p nt show False by simp
    qed
    moreover have "p - q \<le> m"
      unfolding m_def
    proof (rule span_len_ge)
      fix j assume j: "j < p - q"
      with p have 1: "q + j < length s" by simp
      have "in_class tcls (s ! (q + j))"
      proof (cases "j < k")
        case True
        with that(1) have "j < m" by simp
        then show ?thesis using span_len_nth [of j "in_class tcls" s q] by (simp add: m_def)
      next
        case False
        with j have "j - k < wk" "q + k + (j - k) = q + j" by (simp_all add: p_def)
        with span_len_nth [of "j - k" "in_class wcls" s "q + k"] have "in_class wcls (s ! (q + j))"
          by (simp add: wk_def)
        then show ?thesis by (rule sub)
      qed
      with 1 show "q + j < length s \<and> in_class tcls (s ! (q + j))" by simp
    qed
    ultimately have "p = q + m" by (simp add: p_def)
    with okp have "run U T s (q + m) (ms @ [q + k]) \<noteq> None" by simp
    then have "run U T s (q + m) (ms @ [q + m]) \<noteq> None" by (simp only: ok)
    then show ?thesis by (simp add: fm)
  qed
  have "run U (Rep tcls 2 None # Group_close # Rep wcls 0 None # T) s q ms
          = first_some (map f (rev [2..<Suc m]))"
    unfolding f_def m_def by (rule run_rep_unbounded)
  also have "\<dots> = (if 2 \<le> m then f m else None)"
  proof (rule first_some_greedy)
    fix k assume "k < m" "f k \<noteq> None"
    then show "f m \<noteq> None" by (rule up)
  qed
  finally have "run U (Rep tcls 2 None # Group_close # Rep wcls 0 None # T) s q ms
                  = (if 2 \<le> m then run U T s (q + m) (ms @ [q + m]) else None)"
    by (simp add: fm)
  then show ?thesis unfolding m_def T_def .
qed


lemma pattern_unfold:
  "pattern =
     [Word_boundary, Group_open, Rep [Range 65 90, Range 97 122] (Suc 0) (Some (Suc 0)),
      Rep [Range 65 90, Range 97 122, Space, Lit 45] 2 None, Group_close, Rep [Space] 0 None,
      Rep [Lit 40] (Suc 0) (Some (Suc 0)), Group_open, Rep [Range 65 90] 2 (Some 10), Group_close,
      Rep [Lit 41] (Suc 0) (Some (Suc 0))]"
  by (simp add: pattern_def)

text \<open>The match of the whole pattern at a position, in closed form.\<close>

lemma run_pattern:
  "run U pattern s i [] =
     (let m = span_len (in_class [Range 65 90, Range 97 122, Space, Lit 45]) s (Suc i);
          u = span_len (in_class [Range 65 90]) s (i + m + 2)
      in
      if at_boundary U s i \<and> i < length s \<and> in_class [Range 65 90, Range 97 122] (s ! i) \<and> 2 \<le> m
         \<and> i + m + 1 < length s \<and> s ! (i + m + 1) = 40 \<and> 2 \<le> u \<and> u \<le> 10
         \<and> i + m + u + 2 < length s \<and> s ! (i + m + u + 2) = 41
      then Some (i + m + u + 3, [i, i + m + 1, i + m + 2, i + m + u + 2])
      else None)"
proof -
  have 1: "\<not> in_class [Range 65 90] 41" by (simp add: in_class_def)
  have 2: "\<not> in_class [Space] 40" by (simp add: in_class_def is_space_def)
  have 3: "\<not> in_class [Range 65 90, Range 97 122, Space, Lit 45] 40"
    by (simp add: in_class_def is_space_def)
  have 4: "in_class [Space] c \<Longrightarrow> in_class [Range 65 90, Range 97 122, Space, Lit 45] c" for c
    by (simp add: in_class_def)
  define m where "m = span_len (in_class [Range 65 90, Range 97 122, Space, Lit 45]) s (Suc i)"
  define u where "u = span_len (in_class [Range 65 90]) s (Suc (Suc i + m))"
  define T where "T = [Rep [Lit 40] (Suc 0) (Some (Suc 0)), Group_open, Rep [Range 65 90] 2 (Some 10),
                       Group_close, Rep [Lit 41] (Suc 0) (Some (Suc 0))]"
  have a: "run U pattern s i [] =
             (if at_boundary U s i \<and> i < length s \<and> in_class [Range 65 90, Range 97 122] (s ! i)
              then run U (Rep [Range 65 90, Range 97 122, Space, Lit 45] 2 None # Group_close
                          # Rep [Space] 0 None # T) s (Suc i) [i]
              else None)"
    unfolding pattern_unfold T_def by (simp only: run.simps(2) run.simps(3) run_char append_Nil) simp
  have b: "run U (Rep [Range 65 90, Range 97 122, Space, Lit 45] 2 None # Group_close
                          # Rep [Space] 0 None # T) s (Suc i) [i]
             = (if 2 \<le> m then run U T s (Suc i + m) ([i] @ [Suc i + m]) else None)"
    unfolding m_def T_def by (rule run_term [OF 1 2 3 4])
  have c: "run U T s (Suc i + m) ([i] @ [Suc i + m]) =
             (if Suc i + m < length s \<and> s ! (Suc i + m) = 40 \<and> 2 \<le> u \<and> u \<le> 10
                 \<and> Suc (Suc i + m) + u < length s \<and> s ! (Suc (Suc i + m) + u) = 41
              then Some (Suc (Suc (Suc i + m) + u), ([i] @ [Suc i + m]) @ [Suc (Suc i + m), Suc (Suc i + m) + u])
              else None)"
    unfolding u_def T_def by (rule run_paren [OF 1])
  have e: "i + m + 2 = Suc (Suc i + m)" "i + m + 1 = Suc i + m" "i + m + u + 2 = Suc (Suc i + m) + u"
    "i + m + u + 3 = Suc (Suc (Suc i + m) + u)"
    by simp_all
  show ?thesis
    unfolding Let_def m_def [symmetric] e u_def [symmetric] a b c by auto
qed


lemma cls_term: "in_class [Range 65 90, Range 97 122, Space, Lit 45] = term_char"
  by (rule ext) (auto simp add: in_class_def term_char_def is_upper_ascii_def is_lower_ascii_def)

lemma cls_upper: "in_class [Range 65 90] = is_upper_ascii"
  by (rule ext) (simp add: in_class_def is_upper_ascii_def)

lemma cls_letter: "in_class [Range 65 90, Range 97 122] c = (is_upper_ascii c \<or> is_lower_ascii c)"
  by (simp add: in_class_def is_upper_ascii_def is_lower_ascii_def)

lemma match_at_closed:
  "match_at U s i =
     (if at_boundary U s i \<and> i < length s \<and> (is_upper_ascii (s ! i) \<or> is_lower_ascii (s ! i)) then
        let m = span_len term_char s (Suc i) in
        if 2 \<le> m \<and> i + m + 1 < length s \<and> s ! (i + m + 1) = 40 then
          let u = span_len is_upper_ascii s (i + m + 2) in
          if 2 \<le> u \<and> u \<le> 10 \<and> i + m + u + 2 < length s \<and> s ! (i + m + u + 2) = 41
          then Some \<lparr>m_start = i, m_end = i + m + u + 3, m_full = slice s i (i + m + 1),
                     m_abbr = slice s (i + m + 2) (i + m + u + 2)\<rparr>
          else None
        else None
      else None)"
  by (simp add: match_at_def run_pattern Let_def cls_term cls_upper cls_letter)

lemma finditer_miss:
  "pos \<le> length s \<Longrightarrow> match_at U s pos = None \<Longrightarrow> finditer_from U s pos = finditer_from U s (Suc pos)"
  by (subst finditer_from.simps) simp

lemma finditer_hit:
  "pos \<le> length s \<Longrightarrow> match_at U s pos = Some m \<Longrightarrow>
     finditer_from U s pos = m # finditer_from U s (max (m_end m) (Suc pos))"
  by (subst finditer_from.simps) simp

lemma finditer_end: "length s < pos \<Longrightarrow> finditer_from U s pos = []"
  by (subst finditer_from.simps) simp


subsection \<open>Evaluating the program on a text\<close>

declare finditer_from.simps [simp del]

lemmas eval_abbr = ascii_def extract_abbreviations_def findall_def finditer_from.simps
  match_at_closed at_boundary_def is_word_def is_upper_ascii_def is_lower_ascii_def
  is_digit_ascii_def is_space_def span_len_def term_char_def slice_def py_split_def py_strip_def

subsection \<open>Matches\<close>



lemma slice_length: "b \<le> length s \<Longrightarrow> length (slice s a b) = b - a"
  by (simp add: slice_def)

lemma slice_nth: "b \<le> length s \<Longrightarrow> k < b - a \<Longrightarrow> slice s a b ! k = s ! (a + k)"
  by (simp add: slice_def)

lemma slice_list_all:
  "b \<le> length s \<Longrightarrow> (\<And>k. a \<le> k \<Longrightarrow> k < b \<Longrightarrow> P (s ! k)) \<Longrightarrow> list_all P (slice s a b)"
  by (simp add: list_all_length slice_length slice_nth)

lemma take_as_slices:
  assumes "a \<le> p" "p < q" "q < length s"
  shows "take (Suc q - a) (drop a s) = slice s a p @ [s ! p] @ slice s (Suc p) q @ [s ! q]"
proof -
  have "take (Suc q - a) (drop a s) = slice s a (Suc q)" by (simp add: slice_def)
  also have "\<dots> = slice s a p @ slice s p (Suc q)"
  proof -
    from assms have e: "Suc q - a = (p - a) + (Suc q - p)" by simp
    show ?thesis unfolding slice_def e take_add using assms by simp
  qed
  also have "slice s p (Suc q) = s ! p # slice s (Suc p) (Suc q)"
    using assms by (simp add: slice_def Suc_diff_le Cons_nth_drop_Suc [symmetric])
  also have "slice s (Suc p) (Suc q) = slice s (Suc p) q @ [s ! q]"
  proof -
    from assms have e: "Suc q - Suc p = Suc (q - Suc p)" and l: "q - Suc p < length (drop (Suc p) s)"
      by simp_all
    from assms have n: "drop (Suc p) s ! (q - Suc p) = s ! q" by simp
    show ?thesis unfolding slice_def e take_Suc_conv_app_nth [OF l] n ..
  qed
  finally show ?thesis by simp
qed


lemma match_at_sound:
  assumes "match_at U s i = Some m"
  shows "m_start m = i \<and> m_end m = i + length (m_full m) + length (m_abbr m) + 2
         \<and> spec_pattern U s i (m_full m) [] (m_abbr m)"
proof -
  define n where "n = span_len term_char s (Suc i)"
  define u where "u = span_len is_upper_ascii s (i + n + 2)"
  from assms have c: "at_boundary U s i" "i < length s" "is_upper_ascii (s ! i) \<or> is_lower_ascii (s ! i)"
    "2 \<le> n" "s ! (i + n + 1) = 40" "2 \<le> u" "u \<le> 10" "i + n + u + 2 < length s"
    "s ! (i + n + u + 2) = 41"
    and m: "m = \<lparr>m_start = i, m_end = i + n + u + 3, m_full = slice s i (i + n + 1),
                  m_abbr = slice s (i + n + 2) (i + n + u + 2)\<rparr>"
    unfolding match_at_closed Let_def n_def u_def by (simp_all split: if_splits)
  have lf: "length (m_full m) = n + 1" and la: "length (m_abbr m) = u"
    using c(8) by (simp_all add: m slice_length)
  have hd: "hd (m_full m) = s ! i"
    using c(8) lf by (simp add: m hd_conv_nth slice_nth flip: length_0_conv)
  have tc: "list_all term_char (m_full m)"
    unfolding m re_match.simps
  proof (rule slice_list_all)
    show "i + n + 1 \<le> length s" using c(8) by simp
    fix k assume k: "i \<le> k" "k < i + n + 1"
    show "term_char (s ! k)"
    proof (cases "k = i")
      case True
      with c(3) show ?thesis by (auto simp add: term_char_def)
    next
      case False
      define j where "j = k - Suc i"
      from False k have j: "j < n" "k = Suc i + j" by (simp_all add: j_def)
      from j(1) have "term_char (s ! (Suc i + j))"
        unfolding n_def by (rule span_len_nth [THEN conjunct2])
      then show ?thesis by (simp only: j(2))
    qed
  qed
  have up: "list_all is_upper_ascii (m_abbr m)"
    unfolding m re_match.simps
  proof (rule slice_list_all)
    show "i + n + u + 2 \<le> length s" using c(8) by simp
    fix k assume k: "i + n + 2 \<le> k" "k < i + n + u + 2"
    define j where "j = k - (i + n + 2)"
    from k have j: "j < u" "k = i + n + 2 + j" by (simp_all add: j_def)
    from j(1) have "is_upper_ascii (s ! (i + n + 2 + j))"
      unfolding u_def by (rule span_len_nth [THEN conjunct2])
    then show "is_upper_ascii (s ! k)" by (simp only: j(2))
  qed
  have "take (Suc (i + n + u + 2) - i) (drop i s)
          = slice s i (i + n + 1) @ [s ! (i + n + 1)] @ slice s (Suc (i + n + 1)) (i + n + u + 2)
            @ [s ! (i + n + u + 2)]"
    by (rule take_as_slices) (use c in simp_all)
  then have tk0: "take (n + u + 3) (drop i s)
          = slice s i (i + n + 1) @ [40] @ slice s (i + n + 2) (i + n + u + 2) @ [41]"
    using c(5) c(9) by (simp add: add.commute)
  have len: "length (m_full m) + length ([]::pystr) + length (m_abbr m) + 2 = n + u + 3"
    using lf la by simp
  have tk: "take (length (m_full m) + length ([]::pystr) + length (m_abbr m) + 2) (drop i s)
          = m_full m @ [] @ ascii ''('' @ m_abbr m @ ascii '')''"
    unfolding len using tk0 by (simp add: m ascii_def)
  show ?thesis
    unfolding spec_pattern_def using c(1,3,4,6,7) lf la hd tc up tk by (simp add: m)
qed




subsection \<open>The scan\<close>

lemma finditer_matches:
  "m \<in> set (finditer_from U s pos) \<Longrightarrow> pos \<le> m_start m \<and> match_at U s (m_start m) = Some m"
proof (induction U s pos rule: finditer_from.induct)
  case (1 U s pos)
  show ?case
  proof (cases "length s < pos")
    case True
    with "1.prems" show ?thesis by (simp add: finditer_end)
  next
    case inside: False
    show ?thesis
    proof (cases "match_at U s pos")
      case None
      with inside "1.prems" have "m \<in> set (finditer_from U s (Suc pos))" by (simp add: finditer_miss)
      with "1.IH"(1) [OF inside None] show ?thesis by simp
    next
      case (Some m')
      from match_at_sound [OF Some] have st: "m_start m' = pos" by simp
      from inside Some "1.prems" have "m = m' \<or> m \<in> set (finditer_from U s (max (m_end m') (Suc pos)))"
        by (simp add: finditer_hit)
      then show ?thesis
      proof
        assume "m = m'"
        with st Some show ?thesis by simp
      next
        assume "m \<in> set (finditer_from U s (max (m_end m') (Suc pos)))"
        with "1.IH"(2) [OF inside Some] show ?thesis by simp
      qed
    qed
  qed
qed

lemma finditer_in_order: "sorted_wrt (\<lambda>m m'. m_end m \<le> m_start m') (finditer_from U s pos)"
proof (induction U s pos rule: finditer_from.induct)
  case (1 U s pos)
  show ?case
  proof (cases "length s < pos")
    case True
    then show ?thesis by (simp add: finditer_end)
  next
    case inside: False
    show ?thesis
    proof (cases "match_at U s pos")
      case None
      with inside "1.IH"(1) show ?thesis by (simp add: finditer_miss)
    next
      case (Some m')
      have "m_end m' \<le> m_start m" if "m \<in> set (finditer_from U s (max (m_end m') (Suc pos)))" for m
        using finditer_matches [OF that] by simp
      with inside Some "1.IH"(2) show ?thesis by (simp add: finditer_hit)
    qed
  qed
qed


subsection \<open>The dictionary\<close>

lemma abbr_loop_lookup:
  "map_of (abbr_loop d ms) a =
     (case map_of d a of
        Some v \<Rightarrow> Some v
      | None \<Rightarrow>
          (case find (\<lambda>(full, abbr). py_strip abbr = a) ms of
             None \<Rightarrow> None
           | Some (full, abbr) \<Rightarrow> Some (py_join (ascii '' '') (py_split full))))"
proof (induction ms arbitrary: d)
  case Nil
  show ?case by (simp split: option.split)
next
  case (Cons p ms)
  obtain full abbr where p: "p = (full, abbr)" by (cases p)
  show ?case
  proof (cases "py_strip abbr \<in> set (map fst d)")
    case True
    then have "map_of d (py_strip abbr) \<noteq> None" by (simp add: map_of_eq_None_iff)
    with True show ?thesis
      by (auto simp add: p Cons.IH Let_def split: option.split)
  next
    case False
    then have "map_of d (py_strip abbr) = None" by (simp add: map_of_eq_None_iff)
    with False show ?thesis
      by (auto simp add: p Cons.IH Let_def map_add_def split: option.split)
  qed
qed

lemma abbr_loop_distinct: "distinct (map fst d) \<Longrightarrow> distinct (map fst (abbr_loop d ms))"
  by (induction ms arbitrary: d) (auto simp add: Let_def)

lemma abbr_loop_sources:
  "(k, v) \<in> set (abbr_loop d ms) \<Longrightarrow>
     (k, v) \<in> set d \<or> (\<exists>(full, abbr)\<in>set ms. k = py_strip abbr \<and> v = py_join (ascii '' '') (py_split full))"
proof (induction ms arbitrary: d)
  case Nil
  then show ?case by simp
next
  case (Cons p ms)
  obtain full abbr where p: "p = (full, abbr)" by (cases p)
  from Cons.prems Cons.IH [of d] Cons.IH [of "d @ [(py_strip abbr, py_join (ascii '' '') (py_split full))]"]
  show ?case by (auto simp add: p Let_def split: if_splits)
qed

section \<open>Normalization of a full term\<close>

lemma split_acc_words:
  "(\<And>c. c \<in> set w \<Longrightarrow> \<not> is_space c) \<Longrightarrow> x \<in> set (split_acc w s)
     \<Longrightarrow> x \<noteq> [] \<and> (\<forall>c\<in>set x. \<not> is_space c)"
proof (induction s arbitrary: w)
  case Nil
  then show ?case by (auto split: if_splits)
next
  case (Cons c cs)
  show ?case
  proof (cases "is_space c")
    case True
    with Cons.prems have "x = w \<and> w \<noteq> [] \<or> x \<in> set (split_acc [] cs)"
      by (auto split: if_splits)
    then show ?thesis
    proof
      assume "x = w \<and> w \<noteq> []"
      with Cons.prems(1) show ?thesis by blast
    next
      assume "x \<in> set (split_acc [] cs)"
      with Cons.IH [of "[]"] show ?thesis by simp
    qed
  next
    case False
    with Cons.prems have "x \<in> set (split_acc (w @ [c]) cs)" by simp
    moreover have "\<And>d. d \<in> set (w @ [c]) \<Longrightarrow> \<not> is_space d" using Cons.prems(1) False by auto
    ultimately show ?thesis using Cons.IH [of "w @ [c]"] by blast
  qed
qed

lemma py_split_words: "x \<in> set (py_split s) \<Longrightarrow> x \<noteq> [] \<and> (\<forall>c\<in>set x. \<not> is_space c)"
  unfolding py_split_def by (rule split_acc_words [of "[]"]) simp_all

lemma no_ws_run_Cons: "\<not> is_space a \<Longrightarrow> no_ws_run (a # cs) = no_ws_run cs"
  by (cases cs) simp_all

lemma no_ws_run_append: "(\<And>c. c \<in> set x \<Longrightarrow> \<not> is_space c) \<Longrightarrow> no_ws_run (x @ r) = no_ws_run r"
  by (induction x) (simp_all add: no_ws_run_Cons)

lemma py_join_nonempty: "ws \<noteq> [] \<Longrightarrow> hd ws \<noteq> [] \<Longrightarrow> py_join sep ws \<noteq> []"
  by (induction sep ws rule: py_join.induct) simp_all

lemma hd_py_join: "ws \<noteq> [] \<Longrightarrow> hd ws \<noteq> [] \<Longrightarrow> hd (py_join sep ws) = hd (hd ws)"
  by (induction sep ws rule: py_join.induct) simp_all

lemma collapsed_join:
  "\<forall>w\<in>set ws. w \<noteq> [] \<and> (\<forall>c\<in>set w. \<not> is_space c) \<Longrightarrow> collapsed (py_join [32] ws)"
proof (induction "[32::nat]" ws rule: py_join.induct)
  case 1
  show ?case by (simp add: collapsed_def)
next
  case (2 x)
  then have x: "x \<noteq> []" "\<And>c. c \<in> set x \<Longrightarrow> \<not> is_space c" by simp_all
  from x(2) have "no_ws_run (x @ [])" by (subst no_ws_run_append) simp_all
  moreover from x have "\<not> is_space (hd x)" "\<not> is_space (last x)" by simp_all
  moreover from x(2) have "list_all (\<lambda>c. is_space c \<longrightarrow> c = 32) x" by (simp add: list_all_iff)
  ultimately show ?case by (simp add: collapsed_def)
next
  case (3 x y ys)
  define r where "r = py_join [32] (y # ys)"
  from "3.prems" have x: "x \<noteq> []" "\<And>c. c \<in> set x \<Longrightarrow> \<not> is_space c" by simp_all
  from "3.prems" have y: "y \<noteq> []" "\<And>c. c \<in> set y \<Longrightarrow> \<not> is_space c" by simp_all
  from "3.prems" have "\<forall>w\<in>set (y # ys). w \<noteq> [] \<and> (\<forall>c\<in>set w. \<not> is_space c)" by simp
  then have c: "collapsed r" unfolding r_def by (rule "3.hyps")
  from y have hy: "\<not> is_space (hd y)" by simp
  from y have r: "r \<noteq> []" "hd r = hd y" unfolding r_def
    by (simp_all add: py_join_nonempty hd_py_join)
  with hy obtain b bs where rb: "r = b # bs" "\<not> is_space b" by (cases r) auto
  have "no_ws_run (x @ 32 # r) = no_ws_run (32 # r)" using x(2) by (rule no_ws_run_append)
  also have "\<dots> = no_ws_run r" using rb by simp
  finally have 1: "no_ws_run (x @ 32 # r)" using c by (simp add: collapsed_def)
  have 2: "list_all (\<lambda>c. is_space c \<longrightarrow> c = 32) (x @ 32 # r)"
    using x(2) c by (auto simp add: collapsed_def list_all_iff)
  have 3: "\<not> is_space (hd (x @ 32 # r))" using x by simp
  have 4: "\<not> is_space (last (x @ 32 # r))" using c r by (simp add: collapsed_def)
  from 1 2 3 4 show ?case by (simp add: collapsed_def r_def)
qed

lemma split_acc_word: "(\<And>c. c \<in> set x \<Longrightarrow> \<not> is_space c) \<Longrightarrow> split_acc w (x @ r) = split_acc (w @ x) r"
  by (induction x arbitrary: w) simp_all

lemma split_join:
  "\<forall>w\<in>set ws. w \<noteq> [] \<and> (\<forall>c\<in>set w. \<not> is_space c) \<Longrightarrow> split_acc [] (py_join [32] ws) = ws"
proof (induction "[32::nat]" ws rule: py_join.induct)
  case 1
  show ?case by simp
next
  case (2 x)
  then have x: "x \<noteq> []" "\<And>c. c \<in> set x \<Longrightarrow> \<not> is_space c" by simp_all
  from x(2) have "split_acc [] (x @ []) = split_acc ([] @ x) []" by (rule split_acc_word)
  with x(1) show ?case by simp
next
  case (3 x y ys)
  from "3.prems" have x: "x \<noteq> []" "\<And>c. c \<in> set x \<Longrightarrow> \<not> is_space c" by simp_all
  from "3.prems" have "\<forall>w\<in>set (y # ys). w \<noteq> [] \<and> (\<forall>c\<in>set w. \<not> is_space c)" by simp
  then have ih: "split_acc [] (py_join [32] (y # ys)) = y # ys" by (rule "3.hyps")
  from x(2) have "split_acc [] (x @ 32 # py_join [32] (y # ys)) = split_acc ([] @ x) (32 # py_join [32] (y # ys))"
    by (rule split_acc_word)
  with x(1) ih show ?case by (simp add: is_space_def)
qed

lemma normalize_collapsed: "collapsed (py_join (ascii '' '') (py_split s))"
  using collapsed_join [of "py_split s"] py_split_words [of _ s] by (simp add: ascii_def)

lemma normalize_words: "py_split (py_join (ascii '' '') (py_split s)) = py_split s"
  using split_join [of "py_split s"] py_split_words [of _ s] by (simp add: ascii_def py_split_def)

lemma py_strip_id: "s = [] \<or> \<not> is_space (hd s) \<and> \<not> is_space (last s) \<Longrightarrow> py_strip s = s"
proof (cases "s = []")
  case True
  then show ?thesis by (simp add: py_strip_def)
next
  case False
  assume "s = [] \<or> \<not> is_space (hd s) \<and> \<not> is_space (last s)"
  with False have h: "\<not> is_space (hd s)" "\<not> is_space (last s)" by simp_all
  from h(1) have 1: "dropWhile is_space s = s" by (simp add: dropWhile_eq_self_iff)
  from h(2) False have 2: "dropWhile is_space (rev s) = rev s"
    by (simp add: dropWhile_eq_self_iff hd_rev)
  show ?thesis by (simp add: py_strip_def 1 2)
qed

lemma py_strip_upper: "list_all is_upper_ascii s \<Longrightarrow> py_strip s = s"
proof (rule py_strip_id)
  assume a: "list_all is_upper_ascii s"
  have n: "is_upper_ascii c \<Longrightarrow> \<not> is_space c" for c
    by (auto simp add: is_upper_ascii_def is_space_def)
  show "s = [] \<or> \<not> is_space (hd s) \<and> \<not> is_space (last s)"
  proof (cases "s = []")
    case True then show ?thesis by simp
  next
    case False
    then have "hd s \<in> set s" "last s \<in> set s" by simp_all
    with a n show ?thesis by (auto simp add: list_all_iff)
  qed
qed

section \<open>The question-answering call\<close>

text \<open>
  C5. For every question and every context, \<^verbatim>\<open>get_answer\<close> calls the model once, with the
  question and the first 4000 characters of the context: a string of at most 4000 characters,
  and the whole context when the context has 4000 characters or fewer.
\<close>

theorem get_answer_truncates:
  "get_answer qa question context
     = ([Qa_call question (take 4000 context)], qa question (take 4000 context))
   \<and> length (take 4000 context) = min 4000 (length context)
   \<and> (length context \<le> 4000 \<longrightarrow> take 4000 context = context)"
  by (simp add: get_answer_def Let_def min.commute)

theorem get_answer_truncates_witness:
  "length (ascii ''abc'') \<le> 4000
   \<and> get_answer sample_qa (ascii ''q'') (ascii ''abc'')
       = ([Qa_call (ascii ''q'') (ascii ''abc'')], Inr (ascii ''abc''))
   \<and> get_answer sample_qa (ascii ''q'') (replicate 4001 97)
       = ([Qa_call (ascii ''q'') (replicate 4000 97)], Inr (replicate 20 97))"
  using get_answer_truncates [of sample_qa "ascii ''q''" "ascii ''abc''"]
    get_answer_truncates [of sample_qa "ascii ''q''" "replicate 4001 97"]
  by (simp add: sample_qa_def ascii_def)

section \<open>Short full terms\<close>

text \<open>
  C10. The text \<^verbatim>\<open>a   (AB)\<close> gives the dictionary \<^verbatim>\<open>{"AB": "a"}\<close>: the full term has one
  character after normalization, while the run captured by the pattern, \<^verbatim>\<open>a\<close> and three
  spaces, has the 3 characters the pattern asks for and more.
\<close>

theorem short_full_term:
  "extract_abbreviations U (ascii ''a   (AB)'') = [(ascii ''AB'', ascii ''a'')]
   \<and> length (ascii ''a'') < 3
   \<and> findall U (ascii ''a   (AB)'') = [(ascii ''a   '', ascii ''AB'')]
   \<and> 3 \<le> length (ascii ''a   '')"
  by (simp add: eval_abbr)


section \<open>Text extraction\<close>

lemmas eval_suffix = path_suffix_def path_name_def py_rfind_def py_lower_def is_upper_ascii_def ascii_def




text \<open>
  C2. The claim is that the empty byte sequence gives the empty string under every supported
  extension. Under \<^verbatim>\<open>.pdf\<close> the empty sequence goes to \<^verbatim>\<open>PdfReader\<close>, which rejects an
  empty stream, and the exception propagates.
\<close>

theorem empty_pdf_raises:
  "pdf_reader sample_parsers [] = Inl EmptyFileError
   \<and> extract_text_from_file ascii_only sample_parsers \<lparr>name = ascii ''a.pdf'', content = []\<rparr>
       = Inl EmptyFileError"
  by (simp add: extract_text_from_file_def sample_parsers_def eval_suffix)

text \<open>
  C2, as the program has it. On the empty byte sequence, \<^verbatim>\<open>extract_text_from_file\<close>
  returns the empty string under \<^verbatim>\<open>.txt\<close>, and under \<^verbatim>\<open>.html\<close> and \<^verbatim>\<open>.htm\<close> when
  \<^verbatim>\<open>BeautifulSoup\<close> makes the empty document of it; under \<^verbatim>\<open>.pdf\<close> and \<^verbatim>\<open>.docx\<close>
  the sequence is passed to the parser unguarded, and the exception of a parser that rejects
  it propagates.
\<close>

theorem empty_bytes_by_extension:
  "(py_lower U (path_suffix (name f)) = ascii ''.txt'' \<and> content f = []
      \<longrightarrow> extract_text_from_file U P f = Inr [])
   \<and> (py_lower U (path_suffix (name f)) \<in> set [ascii ''.html'', ascii ''.htm''] \<and> content f = []
        \<and> beautiful_soup P [] = Inr (Tag n [])
      \<longrightarrow> extract_text_from_file U P f = Inr [])
   \<and> (py_lower U (path_suffix (name f)) = ascii ''.pdf'' \<and> content f = [] \<and> pdf_reader P [] = Inl e
      \<longrightarrow> extract_text_from_file U P f = Inl e)
   \<and> (py_lower U (path_suffix (name f)) = ascii ''.docx'' \<and> content f = [] \<and> docx_document P [] = Inl e
      \<longrightarrow> extract_text_from_file U P f = Inl e)"
  by (auto simp add: extract_text_from_file_def Let_def ascii_def get_text_def)

theorem empty_bytes_by_extension_witness:
  "(py_lower ascii_only (path_suffix (ascii ''a.txt'')) = ascii ''.txt''
      \<and> extract_text_from_file ascii_only sample_parsers \<lparr>name = ascii ''a.txt'', content = []\<rparr> = Inr [])
   \<and> (py_lower ascii_only (path_suffix (ascii ''a.html'')) = ascii ''.html''
      \<and> beautiful_soup sample_parsers [] = Inr (Tag (ascii ''[document]'') [])
      \<and> extract_text_from_file ascii_only sample_parsers \<lparr>name = ascii ''a.html'', content = []\<rparr> = Inr [])
   \<and> (py_lower ascii_only (path_suffix (ascii ''a.htm'')) = ascii ''.htm''
      \<and> extract_text_from_file ascii_only sample_parsers \<lparr>name = ascii ''a.htm'', content = []\<rparr> = Inr [])
   \<and> (py_lower ascii_only (path_suffix (ascii ''b.pdf'')) = ascii ''.pdf''
      \<and> pdf_reader sample_parsers [] = Inl EmptyFileError
      \<and> extract_text_from_file ascii_only sample_parsers \<lparr>name = ascii ''b.pdf'', content = []\<rparr>
          = Inl EmptyFileError)
   \<and> (py_lower ascii_only (path_suffix (ascii ''a.docx'')) = ascii ''.docx''
      \<and> docx_document sample_parsers [] = Inl BadZipFile
      \<and> extract_text_from_file ascii_only sample_parsers \<lparr>name = ascii ''a.docx'', content = []\<rparr>
          = Inl BadZipFile)"
proof -
  have s: "py_lower ascii_only (path_suffix (ascii ''a.txt'')) = ascii ''.txt''"
    "py_lower ascii_only (path_suffix (ascii ''a.html'')) = ascii ''.html''"
    "py_lower ascii_only (path_suffix (ascii ''a.htm'')) = ascii ''.htm''"
    "py_lower ascii_only (path_suffix (ascii ''b.pdf'')) = ascii ''.pdf''"
    "py_lower ascii_only (path_suffix (ascii ''a.docx'')) = ascii ''.docx''"
    by (simp_all add: eval_suffix)
  have r: "beautiful_soup sample_parsers [] = Inr (Tag (ascii ''[document]'') [])"
    "pdf_reader sample_parsers [] = Inl EmptyFileError"
    "docx_document sample_parsers [] = Inl BadZipFile"
    by (simp_all add: sample_parsers_def)
  from s r
    empty_bytes_by_extension [where U = ascii_only and P = sample_parsers
      and f = "\<lparr>name = ascii ''a.txt'', content = []\<rparr>"]
    empty_bytes_by_extension [where U = ascii_only and P = sample_parsers
      and f = "\<lparr>name = ascii ''a.html'', content = []\<rparr>" and n = "ascii ''[document]''"]
    empty_bytes_by_extension [where U = ascii_only and P = sample_parsers
      and f = "\<lparr>name = ascii ''a.htm'', content = []\<rparr>" and n = "ascii ''[document]''"]
    empty_bytes_by_extension [where U = ascii_only and P = sample_parsers
      and f = "\<lparr>name = ascii ''b.pdf'', content = []\<rparr>" and e = EmptyFileError]
    empty_bytes_by_extension [where U = ascii_only and P = sample_parsers
      and f = "\<lparr>name = ascii ''a.docx'', content = []\<rparr>" and e = BadZipFile]
  show ?thesis by simp
qed

text \<open>
  C8. When the lower-cased suffix of the file name is none of \<^verbatim>\<open>.txt\<close>, \<^verbatim>\<open>.pdf\<close>,
  \<^verbatim>\<open>.docx\<close>, \<^verbatim>\<open>.html\<close>, \<^verbatim>\<open>.htm\<close>, \<^verbatim>\<open>extract_text_from_file\<close> returns the empty
  string, whatever the bytes of the file, and raises nothing.
\<close>

theorem unsupported_extension_empty:
  "py_lower U (path_suffix (name f))
     \<notin> set [ascii ''.txt'', ascii ''.pdf'', ascii ''.docx'', ascii ''.html'', ascii ''.htm'']
   \<Longrightarrow> extract_text_from_file U P f = Inr []"
  by (simp add: extract_text_from_file_def Let_def)

theorem unsupported_extension_empty_witness:
  "py_lower ascii_only (path_suffix (ascii ''data.CSV'')) = ascii ''.csv''
   \<and> ascii ''.csv'' \<notin> set [ascii ''.txt'', ascii ''.pdf'', ascii ''.docx'', ascii ''.html'', ascii ''.htm'']
   \<and> extract_text_from_file ascii_only sample_parsers
         \<lparr>name = ascii ''data.CSV'', content = [0x25, 0x50, 0x44, 0x46]\<rparr> = Inr []"
  using unsupported_extension_empty [of ascii_only "\<lparr>name = ascii ''data.CSV'', content = [0x25, 0x50, 0x44, 0x46]\<rparr>" sample_parsers]
  by (simp add: eval_suffix)

section \<open>The Get Answer handler\<close>

lemma suffix_a_txt: "py_lower U (path_suffix (ascii ''a.txt'')) = ascii ''.txt''"
  by (simp add: eval_suffix)

text \<open>
  C3. One text file with no bytes, and a question. The extracted text is empty, but the
  header line of the file is already in \<^verbatim>\<open>all_text\<close> when the handler tests it, so the test
  for "no text" fails: the handler calls the model on the header alone and never shows its
  error message.
\<close>

theorem qa_called_without_text:
  "extract_text_from_file U P \<lparr>name = ascii ''a.txt'', content = []\<rparr> = Inr []
   \<and> Qa_call (ascii ''q'') (header (ascii ''a.txt''))
       \<in> set (fst (on_get_answer U P qa (ascii ''q'') [\<lparr>name = ascii ''a.txt'', content = []\<rparr>]))
   \<and> St_error (ascii ''I could not read any text from the uploaded files.'')
       \<notin> set (fst (on_get_answer U P qa (ascii ''q'') [\<lparr>name = ascii ''a.txt'', content = []\<rparr>]))"
proof -
  have x: "extract_text_from_file U P \<lparr>name = ascii ''a.txt'', content = []\<rparr> = Inr []"
    by (simp add: extract_text_from_file_def suffix_a_txt)
  have h: "py_strip (header (ascii ''a.txt'')) \<noteq> []"
    by (simp add: header_def py_strip_def ascii_def is_space_def)
  have l: "length (header (ascii ''a.txt'')) \<le> 4000"
    by (simp add: header_def ascii_def)
  show ?thesis
    by (cases "qa (ascii ''q'') (header (ascii ''a.txt''))")
       (simp_all add: x h l on_get_answer_def get_answer_def, simp_all add: ascii_def)
qed


lemma py_strip_empty: "py_strip t = [] \<longleftrightarrow> (\<forall>c\<in>set t. is_space c)"
proof
  assume "py_strip t = []"
  then have "\<forall>c\<in>set (dropWhile is_space t). is_space c" by (simp add: py_strip_def)
  then have "dropWhile is_space t = []"
    using hd_dropWhile [of is_space t] by (cases "dropWhile is_space t") auto
  then show "\<forall>c\<in>set t. is_space c" by simp
next
  assume "\<forall>c\<in>set t. is_space c"
  then have d: "dropWhile is_space t = []" by simp
  show "py_strip t = []" unfolding py_strip_def d by simp
qed

lemma concat_texts_keeps:
  "concat_texts U P all_text files = Inr t \<Longrightarrow> set all_text \<subseteq> set t"
proof (induction files arbitrary: all_text)
  case Nil
  then show ?case by simp
next
  case (Cons f fs)
  then obtain x where x: "extract_text_from_file U P f = Inr x"
    and r: "concat_texts U P (all_text @ header (name f) @ x) fs = Inr t"
    by (auto split: sum.splits)
  from Cons.IH [OF r] show ?case by auto
qed

lemma concat_texts_has_header:
  assumes "concat_texts U P all_text files = Inr t" and "files \<noteq> []"
  shows "61 \<in> set t"
proof -
  from assms(2) obtain f fs where f: "files = f # fs" by (cases files) auto
  with assms(1) obtain x where r: "concat_texts U P (all_text @ header (name f) @ x) fs = Inr t"
    by (auto split: sum.splits)
  have "61 \<in> set (all_text @ header (name f) @ x)" by (simp add: header_def ascii_def)
  with concat_texts_keeps [OF r] show ?thesis by blast
qed

text \<open>
  More generally, the handler never shows the message: once a file has been read,
  \<^verbatim>\<open>all_text\<close> holds the \<^verbatim>\<open>=\<close> signs of its header line.
\<close>

lemma no_text_error_unreachable:
  "St_error msg \<notin> set (fst (on_get_answer U P qa user_question uploaded_files))"
proof (cases "user_question = [] \<or> uploaded_files = []")
  case True
  then show ?thesis by (auto simp add: on_get_answer_def)
next
  case False
  show ?thesis
  proof (cases "concat_texts U P [] uploaded_files")
    case (Inl e)
    with False show ?thesis by (simp add: on_get_answer_def)
  next
    case (Inr t)
    with False have "61 \<in> set t" by (simp add: concat_texts_has_header)
    moreover have "\<not> is_space 61" by (simp add: is_space_def)
    ultimately have "py_strip t \<noteq> []" unfolding py_strip_empty by blast
    with False Inr show ?thesis
      by (cases "qa user_question (take 4000 t)") (simp_all add: on_get_answer_def get_answer_def)
  qed
qed

section \<open>The abbreviation dictionary\<close>

lemma find_groups:
  "find (\<lambda>(full, abbr). py_strip abbr = a) (map (\<lambda>m. (m_full m, m_abbr m)) ms)
     = map_option (\<lambda>m. (m_full m, m_abbr m)) (find (\<lambda>m. py_strip (m_abbr m) = a) ms)"
  by (induction ms) simp_all

lemma findall_find:
  "find (\<lambda>(full, abbr). py_strip abbr = a) (findall U text)
     = map_option (\<lambda>m. (m_full m, m_abbr m)) (find (\<lambda>m. py_strip (m_abbr m) = a) (finditer_from U text 0))"
  unfolding findall_def by (rule find_groups)

lemma finditer_abbr_upper:
  "m \<in> set (finditer_from U s pos) \<Longrightarrow>
     list_all is_upper_ascii (m_abbr m) \<and> 2 \<le> length (m_abbr m) \<and> length (m_abbr m) \<le> 10"
  using match_at_sound [of U s "m_start m" m] finditer_matches [of m U s pos]
  by (simp add: spec_pattern_def)

lemma find_cong_set: "(\<And>x. x \<in> set xs \<Longrightarrow> P x = Q x) \<Longrightarrow> find P xs = find Q xs"
  by (induction xs) simp_all

lemma entries_from_matches:
  assumes "(k, v) \<in> set (extract_abbreviations U text)"
  shows "\<exists>m\<in>set (finditer_from U text 0). m_abbr m = k \<and> v = py_join (ascii '' '') (py_split (m_full m))"
proof -
  from assms abbr_loop_sources [of k v "[]" "findall U text"]
  obtain full abbr where fa: "(full, abbr) \<in> set (findall U text)" "k = py_strip abbr"
    "v = py_join (ascii '' '') (py_split full)"
    by (auto simp add: extract_abbreviations_def)
  from fa(1) obtain m where m: "m \<in> set (finditer_from U text 0)" "full = m_full m" "abbr = m_abbr m"
    by (auto simp add: findall_def)
  from m(1) have "py_strip (m_abbr m) = m_abbr m" by (simp add: finditer_abbr_upper py_strip_upper)
  with fa m show ?thesis by auto
qed

text \<open>
  C4. The matches are scanned in the order of the text, each match starting at or after the
  end of the one before it. For every acronym, the dictionary binds the acronym to the
  normalized full term of the first match that has this acronym, and to nothing when no
  match has it; the keys of the dictionary are distinct, so a later match of the same
  acronym leaves no entry, also when its full term differs, as in
  \<^verbatim>\<open>alpha term (AT) and alpha thing (AT)\<close>.
\<close>

theorem first_match_wins:
  "map_of (extract_abbreviations U text) a =
     (case find (\<lambda>m. m_abbr m = a) (finditer_from U text 0) of
        None \<Rightarrow> None
      | Some m \<Rightarrow> Some (py_join (ascii '' '') (py_split (m_full m))))
   \<and> sorted_wrt (\<lambda>m m'. m_end m \<le> m_start m') (finditer_from U text 0)
   \<and> distinct (map fst (extract_abbreviations U text))
   \<and> extract_abbreviations U (ascii ''alpha term (AT) and alpha thing (AT)'')
       = [(ascii ''AT'', ascii ''alpha term'')]"
proof -
  have "find (\<lambda>m. py_strip (m_abbr m) = a) (finditer_from U text 0)
          = find (\<lambda>m. m_abbr m = a) (finditer_from U text 0)"
    by (rule find_cong_set) (simp add: finditer_abbr_upper py_strip_upper)
  then have 1: "map_of (extract_abbreviations U text) a =
     (case find (\<lambda>m. m_abbr m = a) (finditer_from U text 0) of
        None \<Rightarrow> None
      | Some m \<Rightarrow> Some (py_join (ascii '' '') (py_split (m_full m))))"
    by (simp add: extract_abbreviations_def abbr_loop_lookup findall_find split: option.split)
  have 2: "distinct (map fst (extract_abbreviations U text))"
    unfolding extract_abbreviations_def by (rule abbr_loop_distinct) simp
  have 3: "extract_abbreviations U (ascii ''alpha term (AT) and alpha thing (AT)'')
       = [(ascii ''AT'', ascii ''alpha term'')]"
    by (simp add: eval_abbr)
  from 1 finditer_in_order 2 3 show ?thesis by blast
qed



text \<open>
  C7. Every full term stored in the dictionary is the normalized captured run of a match with
  that acronym: it has the words of the run, in order, no two adjacent white-space
  characters, no white-space character other than the space, and no white space at either
  end. \<^verbatim>\<open>foo   bar  (FB)\<close> gives \<^verbatim>\<open>{"FB": "foo bar"}\<close>.
\<close>

theorem full_term_normalized:
  "(\<forall>(k, v)\<in>set (extract_abbreviations U text).
      collapsed v
      \<and> (\<exists>m\<in>set (finditer_from U text 0).
            m_abbr m = k \<and> v = py_join (ascii '' '') (py_split (m_full m))
            \<and> py_split v = py_split (m_full m)))
   \<and> extract_abbreviations U (ascii ''foo   bar  (FB)'') = [(ascii ''FB'', ascii ''foo bar'')]"
proof
  show "\<forall>(k, v)\<in>set (extract_abbreviations U text).
      collapsed v
      \<and> (\<exists>m\<in>set (finditer_from U text 0).
            m_abbr m = k \<and> v = py_join (ascii '' '') (py_split (m_full m))
            \<and> py_split v = py_split (m_full m))"
  proof (clarify, intro conjI)
    fix k v assume "(k, v) \<in> set (extract_abbreviations U text)"
    from entries_from_matches [OF this]
    obtain m where m: "m \<in> set (finditer_from U text 0)" "m_abbr m = k"
      "v = py_join (ascii '' '') (py_split (m_full m))" by blast
    from m(3) show "collapsed v" by (simp add: normalize_collapsed)
    from m(3) have "py_split v = py_split (m_full m)" by (simp add: normalize_words)
    with m show "\<exists>m\<in>set (finditer_from U text 0).
            m_abbr m = k \<and> v = py_join (ascii '' '') (py_split (m_full m))
            \<and> py_split v = py_split (m_full m)" by blast
  qed
  show "extract_abbreviations U (ascii ''foo   bar  (FB)'') = [(ascii ''FB'', ascii ''foo bar'')]"
    by (simp add: eval_abbr)
qed

theorem full_term_normalized_witness:
  "(ascii ''FB'', ascii ''foo bar'') \<in> set (extract_abbreviations ascii_only (ascii ''foo   bar  (FB)''))
   \<and> collapsed (ascii ''foo bar'')
   \<and> py_split (ascii ''foo bar'') = py_split (ascii ''foo   bar  '')"
proof -
  have e: "extract_abbreviations ascii_only (ascii ''foo   bar  (FB)'') = [(ascii ''FB'', ascii ''foo bar'')]"
    by (simp add: eval_abbr)
  from full_term_normalized [of ascii_only "ascii ''foo   bar  (FB)''"]
  have "collapsed (ascii ''foo bar'')" unfolding e by simp
  moreover have "py_split (ascii ''foo bar'') = py_split (ascii ''foo   bar  '')"
    by (simp add: eval_abbr)
  ultimately show ?thesis by (simp add: e)
qed

section \<open>The Generate Abbreviation Index handler\<close>






end
